theory Spec2Isabelle
  imports Complex_Main "HOL-Library.Word"
begin

unbundle bit_operations_syntax

section \<open>The converter \<^verbatim>\<open>plain_to_v2_converter.py\<close>\<close>

text \<open>
  A shallow embedding of \<^verbatim>\<open>src/plain_to_v2_converter.py\<close>. Python \<^verbatim>\<open>bytes\<close> are lists of
  8-bit words, Python \<^verbatim>\<open>str\<close> is \<^typ>\<open>string\<close>, a raised exception is the \<open>Inl\<close> side of a
  sum. The calls into libraries that are not part of the repository (\<^verbatim>\<open>xxtea\<close>,
  \<^verbatim>\<open>uuid\<close>, \<^verbatim>\<open>zipfile\<close>, \<^verbatim>\<open>pathlib\<close>) are modelled by the definitions of the subsections
  marked \<^emph>\<open>library\<close>; everything else follows the source line by line.
\<close>

type_synonym byte = "8 word"
type_synonym bytes = "byte list"
type_synonym u32 = "32 word"

datatype error =
    FileNotFoundError
  | ValueError string
  | KeyError string
  | ZeroDivisionError
  | BadZipFile string

subsection \<open>Key material\<close>

text \<open>
  \<^verbatim>\<open>k.to_bytes(4, 'little')\<close>: the four bytes of a 32-bit value, least significant first.
  The elements of \<^verbatim>\<open>raw_key_generic\<close> are 32-bit constants, so they are \<^typ>\<open>u32\<close> here
  (for a wider Python integer \<^verbatim>\<open>to_bytes\<close> raises, which the module's constants never do).
\<close>

definition to_bytes4_little :: "u32 \<Rightarrow> bytes" where
  "to_bytes4_little k =
     [ucast k, ucast (drop_bit 8 k), ucast (drop_bit 16 k), ucast (drop_bit 24 k)]"

definition vectkey_to_bytes :: "u32 list \<Rightarrow> bytes" where
  "vectkey_to_bytes key_vect = concat (map to_bytes4_little key_vect)"

definition raw_key_generic :: "u32 list" where
  "raw_key_generic = [0x91BD7A0A, 0xA75440A9, 0xBBD49D6C, 0xE0DCC0E3]"

definition lunii_generic_key :: bytes where
  "lunii_generic_key = vectkey_to_bytes raw_key_generic"

subsection \<open>Round count\<close>

text \<open>
  \<^verbatim>\<open>int(1 + 52 / (len(buffer) / 4))\<close>. Both divisions are Python's true division; they are
  taken here over the rationals, and \<^verbatim>\<open>int\<close> truncates towards zero. Dividing by
  \<^verbatim>\<open>0.0\<close> (an empty buffer) raises \<^verbatim>\<open>ZeroDivisionError\<close>.
\<close>

definition py_int :: "rat \<Rightarrow> int" where
  "py_int q = (if 0 \<le> q then \<lfloor>q\<rfloor> else \<lceil>q\<rceil>)"

definition lunii_tea_rounds :: "bytes \<Rightarrow> error + int" where
  "lunii_tea_rounds buffer =
     (let words = rat_of_nat (length buffer) / 4
      in if words = 0 then Inl ZeroDivisionError
         else Inr (py_int (1 + 52 / words)))"

text \<open>
  Python computes the two quotients and the sum in binary floating point and rounds each
  of them. \<open>lunii_tea_rounds_float fl\<close> is the same expression with every intermediate
  result rounded by \<open>fl\<close>. Of the rounding, \<open>float_rounding\<close> asks what IEEE 754
  round-to-nearest provides: it is monotone, and it leaves the multiples of \<open>1/256\<close> up to
  512 as they are (they need 17 bits). \<open>fixed_round\<close>, rounding down to a multiple of
  \<open>2\<^sup>-\<^sup>2\<^sup>0\<close>, is a simple rounding of this kind. The round count turns out not to depend on
  the rounding (\<open>lunii_tea_rounds_float_eq\<close> below), which is why \<open>lunii_tea_rounds\<close> can be
  taken over the rationals.
\<close>

definition lunii_tea_rounds_float :: "(rat \<Rightarrow> rat) \<Rightarrow> bytes \<Rightarrow> error + int" where
  "lunii_tea_rounds_float fl buffer =
     (let words = fl (rat_of_nat (length buffer) / 4)
      in if words = 0 then Inl ZeroDivisionError
         else Inr (py_int (fl (1 + fl (52 / words)))))"

definition float_rounding :: "(rat \<Rightarrow> rat) \<Rightarrow> bool" where
  "float_rounding fl \<longleftrightarrow>
     (\<forall>x y. x \<le> y \<longrightarrow> fl x \<le> fl y)
     \<and> (\<forall>j :: nat. j \<le> 131072 \<longrightarrow> fl (rat_of_nat j / 256) = rat_of_nat j / 256)"

definition fixed_round :: "rat \<Rightarrow> rat" where
  "fixed_round x = rat_of_int \<lfloor>x * 1048576\<rfloor> / 1048576"

subsection \<open>Library: \<^verbatim>\<open>xxtea.encrypt(data, key, padding=False, rounds=r)\<close>\<close>

text \<open>
  The block cipher is the extension module \<^verbatim>\<open>xxtea\<close>, which is not part of the repository.
  Its behaviour for \<^verbatim>\<open>padding=False\<close> is modelled here: the key must have 16 bytes, the
  data at least 8 bytes and a multiple of 4 (otherwise \<^verbatim>\<open>ValueError\<close>); the data is read as
  little-endian 32-bit words, run through the XXTEA block routine (\<^verbatim>\<open>btea\<close>, coding part)
  for the given number of rounds (\<open>6 + 52 / n\<close> when the argument is 0), and written back
  as bytes.
\<close>

definition DELTA :: u32 where
  "DELTA = 0x9e3779b9"

definition MX :: "u32 \<Rightarrow> u32 \<Rightarrow> u32 \<Rightarrow> u32 list \<Rightarrow> nat \<Rightarrow> nat \<Rightarrow> u32" where
  "MX y z sm key p e =
     ((drop_bit 5 z XOR push_bit 2 y) + (drop_bit 3 y XOR push_bit 4 z))
       XOR ((sm XOR y) + ((key ! ((p AND 3) XOR e)) XOR z))"

text \<open>The inner loop \<^verbatim>\<open>for (p = 0; p < n - 1; p++) { y = v[p + 1]; z = v[p] += MX; }\<close>,
  with the number of iterations left as first argument.\<close>

fun btea_sweep :: "nat \<Rightarrow> u32 list \<Rightarrow> u32 \<Rightarrow> nat \<Rightarrow> u32 list \<Rightarrow> u32 \<Rightarrow> nat \<Rightarrow> u32 list \<times> u32" where
  "btea_sweep 0 key sm e v z p = (v, z)"
| "btea_sweep (Suc k) key sm e v z p =
     (let y = v ! (p + 1);
          z' = v ! p + MX y z sm key p e
      in btea_sweep k key sm e (v[p := z']) z' (p + 1))"

text \<open>One pass of the outer \<^verbatim>\<open>do { ... } while (--rounds)\<close> loop, after \<^verbatim>\<open>sum += DELTA\<close>.\<close>

definition btea_round :: "u32 list \<Rightarrow> u32 \<Rightarrow> u32 list \<Rightarrow> u32 \<Rightarrow> u32 list \<times> u32" where
  "btea_round key sm v z =
     (let n = length v;
          e = unat (drop_bit 2 sm AND 3);
          (v1, z1) = btea_sweep (n - 1) key sm e v z 0;
          y = v1 ! 0;
          z2 = v1 ! (n - 1) + MX y z1 sm key (n - 1) e
      in (v1[n - 1 := z2], z2))"

fun btea_rounds :: "nat \<Rightarrow> u32 list \<Rightarrow> u32 \<Rightarrow> u32 list \<Rightarrow> u32 \<Rightarrow> u32 list" where
  "btea_rounds 0 key sm v z = v"
| "btea_rounds (Suc r) key sm v z =
     (let sm' = sm + DELTA;
          (v', z') = btea_round key sm' v z
      in btea_rounds r key sm' v' z')"

definition btea :: "u32 list \<Rightarrow> u32 list \<Rightarrow> nat \<Rightarrow> u32 list" where
  "btea v key rounds =
     (let n = length v
      in if 1 < n
         then btea_rounds (if rounds = 0 then 6 + 52 div n else rounds) key 0 v (v ! (n - 1))
         else v)"

fun bytes2longs :: "bytes \<Rightarrow> u32 list" where
  "bytes2longs (b0 # b1 # b2 # b3 # rest) =
     (ucast b0 OR push_bit 8 (ucast b1) OR push_bit 16 (ucast b2) OR push_bit 24 (ucast b3))
       # bytes2longs rest"
| "bytes2longs _ = []"

definition longs2bytes :: "u32 list \<Rightarrow> bytes" where
  "longs2bytes ws = concat (map to_bytes4_little ws)"

definition xxtea_encrypt :: "bytes \<Rightarrow> bytes \<Rightarrow> nat \<Rightarrow> error + bytes" where
  "xxtea_encrypt data key rounds =
     (if length key \<noteq> 16 then Inl (ValueError ''Need a 16-byte key.'')
      else if length data < 8 \<or> length data mod 4 \<noteq> 0
      then Inl (ValueError
             ''Data length must be a multiple of 4 bytes and must not be less than 8.'')
      else Inr (longs2bytes (btea (bytes2longs data) (bytes2longs key) rounds)))"

subsection \<open>Partial encryption\<close>

definition encrypt_first_512_bytes :: "bytes \<Rightarrow> bytes \<Rightarrow> error + bytes" where
  "encrypt_first_512_bytes data key =
     (if length data = 0 then Inr data
      else
        let encrypt_len = min 512 (length data);
            to_encrypt = take encrypt_len data;
            remainder = drop encrypt_len data
        in case lunii_tea_rounds to_encrypt of
             Inl e \<Rightarrow> Inl e
           | Inr rounds \<Rightarrow>
               (case xxtea_encrypt to_encrypt key (nat rounds) of
                  Inl e \<Rightarrow> Inl e
                | Inr encrypted \<Rightarrow> Inr (encrypted @ remainder)))"

subsection \<open>Python string operations\<close>

definition backslash :: char where
  "backslash = CHR 0x5C"

definition startswith :: "string \<Rightarrow> string \<Rightarrow> bool" where
  "startswith s pre = (take (length pre) s = pre)"

definition endswith :: "string \<Rightarrow> string \<Rightarrow> bool" where
  "endswith s suf = (length suf \<le> length s \<and> drop (length s - length suf) s = suf)"

text \<open>\<^verbatim>\<open>sub in s\<close>: \<open>sub\<close> occurs in \<open>s\<close> as a contiguous substring.\<close>

fun str_in :: "string \<Rightarrow> string \<Rightarrow> bool" where
  "str_in sub [] = (sub = [])"
| "str_in sub (c # s) = (startswith (c # s) sub \<or> str_in sub s)"

text \<open>
  \<^verbatim>\<open>s.replace(old, new)\<close>: every occurrence of \<open>old\<close>, found from the left and not
  overlapping, is replaced. The source calls it with \<^verbatim>\<open>'.plain'\<close> and with a backslash for
  \<open>old\<close>; for an empty \<open>old\<close> (where Python inserts \<open>new\<close> around every character) this
  function returns \<open>s\<close>.
\<close>

fun str_replace :: "string \<Rightarrow> string \<Rightarrow> string \<Rightarrow> string" where
  "str_replace old new [] = []"
| "str_replace old new (c # s) =
     (if old \<noteq> [] \<and> startswith (c # s) old
      then new @ str_replace old new (drop (length old - 1) s)
      else c # str_replace old new s)"

text \<open>\<^verbatim>\<open>s.upper()\<close> on ASCII text.\<close>

definition upper_char :: "char \<Rightarrow> char" where
  "upper_char c =
     (let n = (of_char c :: nat) in if 97 \<le> n \<and> n \<le> 122 then char_of (n - 32) else c)"

definition str_upper :: "string \<Rightarrow> string" where
  "str_upper s = map upper_char s"

subsection \<open>Library: \<^verbatim>\<open>uuid.UUID(bytes=b).hex\<close>\<close>

text \<open>
  \<^verbatim>\<open>UUID(bytes=b)\<close> raises \<^verbatim>\<open>ValueError\<close> unless \<open>b\<close> has 16 bytes, and otherwise holds
  \<^verbatim>\<open>int.from_bytes(b)\<close> (big endian); its \<^verbatim>\<open>hex\<close> is \<^verbatim>\<open>'%032x' % self.int\<close>.
\<close>

definition int_from_bytes :: "bytes \<Rightarrow> int" where
  "int_from_bytes bs = foldl (\<lambda>acc b. acc * 256 + uint b) 0 bs"

definition UUID :: "bytes \<Rightarrow> error + int" where
  "UUID bs =
     (if length bs \<noteq> 16 then Inl (ValueError ''bytes is not a 16-char string'')
      else Inr (int_from_bytes bs))"

definition hex_digit :: "int \<Rightarrow> char" where
  "hex_digit d = ''0123456789abcdef'' ! nat d"

text \<open>\<^verbatim>\<open>'%x' % n\<close> for \<open>n \<ge> 0\<close>: the hexadecimal digits of \<open>n\<close>, most significant first.\<close>

function hex_of_int :: "int \<Rightarrow> string" where
  "hex_of_int n =
     (if n < 16 then [hex_digit n] else hex_of_int (n div 16) @ [hex_digit (n mod 16)])"
  by pat_completeness auto
termination
  by (relation "measure nat") auto

declare hex_of_int.simps [simp del]

text \<open>
  \<^verbatim>\<open>'%032x' % n\<close>: padded with zeros on the left to 32 characters, never cut; a negative
  number has its sign first.
\<close>

definition format_032x :: "int \<Rightarrow> string" where
  "format_032x n =
     (if 0 \<le> n
      then (let s = hex_of_int n in replicate (32 - length s) (CHR ''0'') @ s)
      else (let s = hex_of_int (- n) in CHR ''-'' # replicate (31 - length s) (CHR ''0'') @ s))"

definition uuid_hex_of :: "int \<Rightarrow> string" where
  "uuid_hex_of story_uuid = format_032x story_uuid"

subsection \<open>Library: \<^verbatim>\<open>zipfile.ZipFile\<close>\<close>

text \<open>
  An archive is the list of its entries (name, data) in directory order; a name may occur
  more than once. \<^verbatim>\<open>namelist()\<close> lists the names in that order, \<^verbatim>\<open>read(name)\<close> returns the
  data of the last entry of that name (\<^verbatim>\<open>KeyError\<close> when there is none), and
  \<^verbatim>\<open>writestr(name, data)\<close> appends an entry, also when the name is already present (the
  library then only emits a warning). Reading and writing the underlying files is taken
  to succeed, with one exception that the code can reach: \<^verbatim>\<open>ZipFile(p, 'w')\<close> truncates the
  file at \<open>p\<close>. An archive that was opened for reading on that same file keeps its
  directory, which was loaded when it was opened, but \<^verbatim>\<open>read(name)\<close> then finds no entry
  header in the file and raises \<^verbatim>\<open>BadZipFile\<close>. Two paths name the same file when they are
  equal.
\<close>

type_synonym zip_archive = "(string \<times> bytes) list"

definition namelist :: "zip_archive \<Rightarrow> string list" where
  "namelist z = map fst z"

definition zip_read :: "zip_archive \<Rightarrow> string \<Rightarrow> error + bytes" where
  "zip_read z name =
     (case map_of (rev z) name of None \<Rightarrow> Inl (KeyError name) | Some data \<Rightarrow> Inr data)"

text \<open>
  \<^verbatim>\<open>read(name)\<close> on an archive whose file may have been truncated since it was opened:
  the name is looked up in the directory first (\<^verbatim>\<open>KeyError\<close>), then the entry is read from
  the file.
\<close>

definition zip_read_file :: "bool \<Rightarrow> zip_archive \<Rightarrow> string \<Rightarrow> error + bytes" where
  "zip_read_file truncated z name =
     (case zip_read z name of
        Inl e \<Rightarrow> Inl e
      | Inr data \<Rightarrow> if truncated then Inl (BadZipFile ''Truncated file header'') else Inr data)"

definition writestr :: "zip_archive \<Rightarrow> string \<Rightarrow> bytes \<Rightarrow> zip_archive" where
  "writestr z name data = z @ [(name, data)]"

subsection \<open>Library: \<^verbatim>\<open>pathlib.Path\<close>\<close>

text \<open>
  A path is its anchor (root, possibly empty) and its components. \<^verbatim>\<open>p.name\<close> is the last
  component (empty when there is none), \<^verbatim>\<open>p.parent\<close> drops it, and \<^verbatim>\<open>p / s\<close> appends the
  single component \<open>s\<close>.
\<close>

record path =
  anchor :: string
  parts :: "string list"

definition path_name :: "path \<Rightarrow> string" where
  "path_name p = (if parts p = [] then [] else last (parts p))"

definition path_parent :: "path \<Rightarrow> path" where
  "path_parent p = p\<lparr>parts := butlast (parts p)\<rparr>"

definition path_join :: "path \<Rightarrow> string \<Rightarrow> path" where
  "path_join p s = p\<lparr>parts := parts p @ [s]\<rparr>"

subsection \<open>The conversion\<close>

text \<open>
  The body of the loop after \<^verbatim>\<open>data = zip_in.read(file_name)\<close>: the \<^verbatim>\<open>if\<close>/\<^verbatim>\<open>elif\<close> chain
  that names the destination entry and computes its bytes. \<open>Inr None\<close> is the
  \<^verbatim>\<open>continue\<close> of the last branch (unknown file, skipped).
\<close>

definition convert_entry :: "string \<Rightarrow> string \<Rightarrow> bytes \<Rightarrow> error + (string \<times> bytes) option" where
  "convert_entry uuid_hex file_name data =
     (if file_name = ''ni'' \<or> file_name = ''nm'' then
        Inr (Some (uuid_hex @ ''/'' @ file_name, data))
      else if endswith file_name ''.plain'' then
        (let base_name = str_replace ''.plain'' [] file_name;
             new_name = uuid_hex @ ''/'' @ base_name
         in case encrypt_first_512_bytes data lunii_generic_key of
              Inl e \<Rightarrow> Inl e
            | Inr output_data \<Rightarrow> Inr (Some (new_name, output_data)))
      else if startswith file_name ''rf/'' \<or> startswith file_name (''rf'' @ [backslash])
              \<or> str_in ''/rf/'' file_name
              \<or> str_in ([backslash] @ ''rf'' @ [backslash]) file_name then
        (let base_name = str_replace [backslash] ''/'' file_name;
             base_name = (if endswith base_name ''.bmp''
                          then take (length base_name - 4) base_name else base_name);
             new_name = uuid_hex @ ''/'' @ base_name
         in case encrypt_first_512_bytes data lunii_generic_key of
              Inl e \<Rightarrow> Inl e
            | Inr output_data \<Rightarrow> Inr (Some (new_name, output_data)))
      else if startswith file_name ''sf/'' \<or> startswith file_name (''sf'' @ [backslash])
              \<or> str_in ''/sf/'' file_name
              \<or> str_in ([backslash] @ ''sf'' @ [backslash]) file_name then
        (let base_name = str_replace [backslash] ''/'' file_name;
             base_name = (if endswith base_name ''.mp3''
                          then take (length base_name - 4) base_name else base_name);
             new_name = uuid_hex @ ''/'' @ base_name
         in case encrypt_first_512_bytes data lunii_generic_key of
              Inl e \<Rightarrow> Inl e
            | Inr output_data \<Rightarrow> Inr (Some (new_name, output_data)))
      else Inr None)"

text \<open>
  The loop \<^verbatim>\<open>for file_name in file_list\<close>, with the state it updates: the entries written
  to \<^verbatim>\<open>zip_out\<close> so far and the counter \<^verbatim>\<open>files_processed\<close>. An exception ends the loop;
  the state then holds what had been written before. \<open>truncated\<close> tells whether opening
  the destination has truncated the file of \<^verbatim>\<open>zip_in\<close>, which is the case when the
  destination is the source file itself.
\<close>

record loop_state =
  zip_out :: zip_archive
  files_processed :: nat

fun process_files :: "string \<Rightarrow> bool \<Rightarrow> zip_archive \<Rightarrow> string list \<Rightarrow> loop_state \<Rightarrow> error option \<times> loop_state" where
  "process_files uuid_hex truncated zip_in [] st = (None, st)"
| "process_files uuid_hex truncated zip_in (file_name # rest) st =
     (if file_name \<in> set [''uuid.bin'', ''_metadata.json'', ''_thumbnail.png'']
      then process_files uuid_hex truncated zip_in rest st
      else case zip_read_file truncated zip_in file_name of
             Inl e \<Rightarrow> (Some e, st)
           | Inr data \<Rightarrow>
               (case convert_entry uuid_hex file_name data of
                  Inl e \<Rightarrow> (Some e, st)
                | Inr None \<Rightarrow> process_files uuid_hex truncated zip_in rest st
                | Inr (Some (new_name, output_data)) \<Rightarrow>
                    process_files uuid_hex truncated zip_in rest
                      \<lparr>zip_out = writestr (zip_out st) new_name output_data,
                       files_processed = files_processed st + 1\<rparr>))"

text \<open>
  The result of a run: what \<^verbatim>\<open>convert_plain_to_v2\<close> returned or raised, and the
  destination archive the run created (\<open>None\<close> when \<^verbatim>\<open>ZipFile(output_path, 'w')\<close> was never
  reached, otherwise its path and the entries written to it, in order).
\<close>

record conversion =
  outcome :: "error + path"
  created :: "(path \<times> zip_archive) option"

text \<open>
  \<open>fs\<close> is the file system the run starts in: \<open>fs p\<close> is the archive stored at \<open>p\<close>, and
  \<open>None\<close> when \<open>p\<close> does not exist. The progress messages are left out, and so is the
  path that the source appends to the message of its first \<^verbatim>\<open>ValueError\<close>. When the
  destination path is the source path, \<^verbatim>\<open>ZipFile(output_path, 'w')\<close> truncates the source
  while \<^verbatim>\<open>zip_in\<close> is still open on it, and the reads of the loop fail.
\<close>

definition convert_plain_to_v2 :: "(path \<Rightarrow> zip_archive option) \<Rightarrow> path \<Rightarrow> path option \<Rightarrow> conversion" where
  "convert_plain_to_v2 fs input_path output_path =
     (case fs input_path of
        None \<Rightarrow> \<lparr>outcome = Inl FileNotFoundError, created = None\<rparr>
      | Some zip_in \<Rightarrow>
          if \<not> endswith (path_name input_path) ''.plain.pk'' then
            \<lparr>outcome = Inl (ValueError ''Input file must be a .plain.pk file''), created = None\<rparr>
          else
            let file_list = namelist zip_in in
            if ''uuid.bin'' \<notin> set file_list then
              \<lparr>outcome = Inl (ValueError ''No uuid.bin found in archive''), created = None\<rparr>
            else
              case zip_read zip_in ''uuid.bin'' of
                Inl e \<Rightarrow> \<lparr>outcome = Inl e, created = None\<rparr>
              | Inr uuid_bytes \<Rightarrow>
                  (case UUID uuid_bytes of
                     Inl e \<Rightarrow> \<lparr>outcome = Inl e, created = None\<rparr>
                   | Inr story_uuid \<Rightarrow>
                       let uuid_hex = str_upper (uuid_hex_of story_uuid);
                           output_path =
                             (case output_path of
                                None \<Rightarrow> path_join (path_parent input_path) (uuid_hex @ ''.v2.pk'')
                              | Some p \<Rightarrow> p);
                           (raised, st) =
                             process_files uuid_hex (output_path = input_path) zip_in file_list
                               \<lparr>zip_out = [], files_processed = 0\<rparr>
                       in \<lparr>outcome = (case raised of None \<Rightarrow> Inr output_path | Some e \<Rightarrow> Inl e),
                           created = Some (output_path, zip_out st)\<rparr>))"

subsection \<open>The identifier's rendering, as the specification words it\<close>

text \<open>
  The 32-character uppercase hexadecimal rendering of 16 bytes: two uppercase hexadecimal
  digits for each byte, in order.
\<close>

definition hex_upper_byte :: "byte \<Rightarrow> string" where
  "hex_upper_byte b =
     [''0123456789ABCDEF'' ! (unat b div 16), ''0123456789ABCDEF'' ! (unat b mod 16)]"

definition hex_upper_rendering :: "bytes \<Rightarrow> string" where
  "hex_upper_rendering bs = concat (map hex_upper_byte bs)"

subsection \<open>Auxiliary notions for the statements and proofs\<close>

text \<open>The hexadecimal digits of \<open>n\<close>, padded with zeros on the left to \<open>k\<close> characters.\<close>

definition hex_padded :: "nat \<Rightarrow> int \<Rightarrow> string" where
  "hex_padded k n = replicate (k - length (hex_of_int n)) (CHR ''0'') @ hex_of_int n"


text \<open>
  What one pass of the loop raises for the name \<open>file_name\<close>, taken on its own, with the
  source file intact: the exception of the read or of the cipher, or \<open>None\<close> when the
  pass raises nothing. It depends on this one name and its data only, not on what the
  other passes wrote.
\<close>

definition entry_error :: "string \<Rightarrow> zip_archive \<Rightarrow> string \<Rightarrow> error option" where
  "entry_error uuid_hex zip_in file_name =
     (if file_name \<in> set [''uuid.bin'', ''_metadata.json'', ''_thumbnail.png''] then None
      else case zip_read zip_in file_name of
             Inl e \<Rightarrow> Some e
           | Inr data \<Rightarrow>
               (case convert_entry uuid_hex file_name data of
                  Inl e \<Rightarrow> Some e
                | Inr w \<Rightarrow> None))"

subsection \<open>An example archive\<close>

text \<open>
  A source archive \<^verbatim>\<open>/tmp/story.plain.pk\<close> with an identifier, a metadata file, an index
  that is copied, a plain index, a file of no known kind, and one image stored twice, once
  with forward slashes and once with backslashes.
\<close>

definition example_path :: path where
  "example_path = \<lparr>anchor = ''/'', parts = [''tmp'', ''story.plain.pk'']\<rparr>"

definition example_uuid :: bytes where
  "example_uuid = [0, 1, 2, 3, 4, 5, 6, 7, 8, 9, 10, 11, 12, 13, 14, 15]"

definition example_archive :: zip_archive where
  "example_archive =
     [(''uuid.bin'', example_uuid),
      (''_metadata.json'', [123, 125]),
      (''ni'', [1, 2, 3]),
      (''li.plain'', [7, 7, 7, 7, 7, 7, 7, 7, 7, 7, 7, 7]),
      (''notes.txt'', [1]),
      (''rf/000/A.bmp'', [1, 1, 1, 1, 1, 1, 1, 1]),
      (''rf'' @ [backslash] @ ''000'' @ [backslash] @ ''A.bmp'', [2, 2, 2, 2, 2, 2, 2, 2])]"

definition example_fs :: "path \<Rightarrow> zip_archive option" where
  "example_fs p = (if p = example_path then Some example_archive else None)"

section \<open>Properties\<close>

subsection \<open>The cipher keeps the length\<close>

lemma length_btea_sweep: "length (fst (btea_sweep k key sm e v z p)) = length v"
  by (induction k arbitrary: v z p) (simp_all add: Let_def)

lemma length_btea_round: "length (fst (btea_round key sm v z)) = length v"
proof -
  obtain v1 z1 where sweep:
    "btea_sweep (length v - 1) key sm (unat (drop_bit 2 sm AND 3)) v z 0 = (v1, z1)"
    by (cases "btea_sweep (length v - 1) key sm (unat (drop_bit 2 sm AND 3)) v z 0")
  have "length v1 = length v"
    using length_btea_sweep [of "length v - 1" key sm "unat (drop_bit 2 sm AND 3)" v z 0] sweep
    by simp
  then show ?thesis
    using sweep by (simp add: btea_round_def Let_def)
qed

lemma length_btea_rounds: "length (btea_rounds r key sm v z) = length v"
proof (induction r arbitrary: sm v z)
  case 0
  show ?case by simp
next
  case (Suc r)
  obtain v' z' where step: "btea_round key (sm + DELTA) v z = (v', z')"
    by (cases "btea_round key (sm + DELTA) v z")
  have "length v' = length v"
    using length_btea_round [of key "sm + DELTA" v z] step by simp
  then show ?case
    using Suc.IH [of "sm + DELTA" v' z'] step by (simp add: Let_def)
qed

lemma length_btea: "length (btea v key rounds) = length v"
  by (simp add: btea_def Let_def length_btea_rounds)

lemma length_bytes2longs: "length (bytes2longs bs) = length bs div 4"
  by (induction bs rule: bytes2longs.induct) simp_all

lemma length_longs2bytes: "length (longs2bytes ws) = 4 * length ws"
  by (induction ws) (simp_all add: longs2bytes_def to_bytes4_little_def)

lemma xxtea_encrypt_length:
  "xxtea_encrypt data key rounds = Inr out \<Longrightarrow> length out = length data"
  by (auto simp: xxtea_encrypt_def length_longs2bytes length_btea length_bytes2longs
      split: if_splits)

lemma xxtea_encrypt_unaligned:
  "length data mod 4 \<noteq> 0 \<Longrightarrow> \<exists>msg. xxtea_encrypt data key rounds = Inl (ValueError msg)"
  by (simp add: xxtea_encrypt_def)

lemma xxtea_encrypt_Inr:
  "length key = 16 \<Longrightarrow> 8 \<le> length data \<Longrightarrow> length data mod 4 = 0 \<Longrightarrow>
   xxtea_encrypt data key rounds = Inr (longs2bytes (btea (bytes2longs data) (bytes2longs key) rounds))"
  by (simp add: xxtea_encrypt_def)

text \<open>
  The model of the cipher reproduces the published XXTEA test vector for the all-zero key
  and block (the number of rounds left to the routine, \<open>6 + 52 / 2\<close>).
\<close>

lemma xxtea_encrypt_test_vector:
  "xxtea_encrypt [0, 0, 0, 0, 0, 0, 0, 0] [0, 0, 0, 0, 0, 0, 0, 0, 0, 0, 0, 0, 0, 0, 0, 0] 0
     = Inr [0xAB, 0x04, 0x37, 0x05, 0x80, 0x8C, 0x5D, 0x57]"
  by code_simp

subsection \<open>Key and round count\<close>

lemma length_lunii_generic_key: "length lunii_generic_key = 16"
  by (simp add: lunii_generic_key_def vectkey_to_bytes_def raw_key_generic_def to_bytes4_little_def)

lemma lunii_tea_rounds_nonempty:
  "buffer \<noteq> [] \<Longrightarrow> lunii_tea_rounds buffer = Inr (py_int (1 + 52 / (rat_of_nat (length buffer) / 4)))"
  by (simp add: lunii_tea_rounds_def Let_def)

lemma py_int_rounds:
  assumes "0 < k"
  shows "py_int (1 + 52 / rat_of_nat k) = 1 + 52 div int k"
proof -
  have "(52::rat) / rat_of_nat k = rat_of_int 52 / rat_of_int (int k)" by simp
  then have "\<lfloor>(52::rat) / rat_of_nat k\<rfloor> = 52 div int k"
    by (simp only: floor_divide_of_int_eq)
  moreover have "0 \<le> 1 + (52::rat) / rat_of_nat k" by simp
  ultimately show ?thesis by (simp add: py_int_def)
qed

lemma lunii_tea_rounds_aligned:
  assumes "buffer \<noteq> []" and "length buffer mod 4 = 0"
  shows "lunii_tea_rounds buffer = Inr (1 + 52 div (int (length buffer) div 4))"
proof -
  obtain k where k: "length buffer = 4 * k" using assms(2) by (auto simp: mod_eq_0_iff_dvd)
  with assms(1) have "0 < k" by (cases k) auto
  have "rat_of_nat (length buffer) / 4 = rat_of_nat k" using k by simp
  then show ?thesis
    using lunii_tea_rounds_nonempty [OF assms(1)] py_int_rounds [OF \<open>0 < k\<close>] k by simp
qed

subsection \<open>The round count does not depend on the rounding\<close>

lemma float_rounding_mono: "float_rounding fl \<Longrightarrow> x \<le> y \<Longrightarrow> fl x \<le> fl y"
  by (simp add: float_rounding_def)

lemma float_rounding_exact:
  assumes "float_rounding fl" and "0 \<le> j" and "j \<le> 131072"
  shows "fl (rat_of_int j / 256) = rat_of_int j / 256"
proof -
  have "nat j \<le> 131072" using assms(3) by simp
  then have "fl (rat_of_nat (nat j) / 256) = rat_of_nat (nat j) / 256"
    using assms(1) by (simp add: float_rounding_def)
  moreover have "rat_of_nat (nat j) = rat_of_int j" using assms(2) by simp
  ultimately show ?thesis by simp
qed

lemma float_rounding_between:
  assumes "float_rounding fl"
      and "0 \<le> a" and "b \<le> 131072"
      and "rat_of_int a / 256 \<le> x" and "x \<le> rat_of_int b / 256"
  shows "rat_of_int a / 256 \<le> fl x \<and> fl x \<le> rat_of_int b / 256"
proof -
  have "rat_of_int a / 256 \<le> rat_of_int b / 256" using assms(4,5) by (rule order_trans)
  then have ab: "a \<le> b" by simp
  have "fl (rat_of_int a / 256) \<le> fl x" using assms(1,4) by (rule float_rounding_mono)
  moreover have "fl x \<le> fl (rat_of_int b / 256)" using assms(1,5) by (rule float_rounding_mono)
  moreover have "fl (rat_of_int a / 256) = rat_of_int a / 256"
    using assms(1,2,3) ab by (intro float_rounding_exact) simp_all
  moreover have "fl (rat_of_int b / 256) = rat_of_int b / 256"
    using assms(1,2,3) ab by (intro float_rounding_exact) simp_all
  ultimately show ?thesis by simp
qed

lemma rounded_sum_truncates:
  assumes "float_rounding fl" and "0 \<le> m" and "m \<le> 208"
      and "rat_of_int m \<le> y" and "y \<le> rat_of_int m + 255 / 256"
  shows "py_int (fl (1 + fl y)) = 1 + m"
proof -
  have lo: "rat_of_int (256 * m) / 256 \<le> y" using assms(4) by simp
  have hi: "y \<le> rat_of_int (256 * m + 255) / 256" using assms(5) by (simp add: add_divide_distrib)
  have "rat_of_int (256 * m) / 256 \<le> fl y \<and> fl y \<le> rat_of_int (256 * m + 255) / 256"
    using assms(1) _ _ lo hi by (rule float_rounding_between) (use assms(2,3) in simp_all)
  then have lo2: "rat_of_int (256 * (m + 1)) / 256 \<le> 1 + fl y"
        and hi2: "1 + fl y \<le> rat_of_int (256 * (m + 1) + 255) / 256"
    by (simp_all add: add_divide_distrib)
  have "rat_of_int (256 * (m + 1)) / 256 \<le> fl (1 + fl y)
        \<and> fl (1 + fl y) \<le> rat_of_int (256 * (m + 1) + 255) / 256"
    using assms(1) _ _ lo2 hi2 by (rule float_rounding_between) (use assms(2,3) in simp_all)
  then have "rat_of_int (m + 1) \<le> fl (1 + fl y)" and "fl (1 + fl y) < rat_of_int (m + 1) + 1"
    by (simp_all add: add_divide_distrib)
  then have "\<lfloor>fl (1 + fl y)\<rfloor> = m + 1" by (intro floor_unique)
  moreover have "0 \<le> fl (1 + fl y)"
    using \<open>rat_of_int (m + 1) \<le> fl (1 + fl y)\<close> assms(2) by linarith 
  ultimately show ?thesis by (simp add: py_int_def)
qed

lemma floor_208_div:
  assumes "0 < n"
  shows "\<lfloor>208 / rat_of_nat n\<rfloor> = 208 div int n"
proof -
  have "(208 :: rat) / rat_of_nat n = rat_of_int 208 / rat_of_int (int n)" by simp
  then show ?thesis by (simp only: floor_divide_of_int_eq)
qed

lemma lunii_tea_rounds_208:
  assumes "buffer \<noteq> []"
  shows "lunii_tea_rounds buffer = Inr (1 + 208 div int (length buffer))"
proof -
  have n: "0 < length buffer" using assms by simp
  have "52 / (rat_of_nat (length buffer) / 4) = 208 / rat_of_nat (length buffer)" by simp
  then have "py_int (1 + 52 / (rat_of_nat (length buffer) / 4))
               = 1 + \<lfloor>208 / rat_of_nat (length buffer)\<rfloor>"
    by (simp add: py_int_def)
  then show ?thesis
    using lunii_tea_rounds_nonempty [OF assms] floor_208_div [OF n] by simp
qed

lemma quotient_window:
  assumes "0 < n" and "n \<le> 208"
  shows "rat_of_int (208 div int n) \<le> 208 / rat_of_nat n
         \<and> 208 / rat_of_nat n \<le> rat_of_int (208 div int n) + 255 / 256"
proof -
  let ?m = "208 div int n" and ?r = "208 mod int n"
  have n0: "(0 :: rat) < rat_of_nat n" using assms(1) by simp
  have r: "0 \<le> ?r" "?r \<le> int n - 1" using assms(1) by (simp_all add: zle_diff1_eq)
  have "rat_of_int ?m * rat_of_int (int n) + rat_of_int ?r = rat_of_int (?m * int n + ?r)"
    by (simp only: of_int_add of_int_mult)
  also have "\<dots> = rat_of_int 208" by simp
  finally have e: "rat_of_int ?m * rat_of_nat n + rat_of_int ?r = 208" by simp
  have "208 / rat_of_nat n = (rat_of_int ?m * rat_of_nat n + rat_of_int ?r) / rat_of_nat n"
    by (simp only: e)
  also have "\<dots> = rat_of_int ?m + rat_of_int ?r / rat_of_nat n"
    using n0 by (simp add: add_divide_distrib)
  finally have q: "208 / rat_of_nat n = rat_of_int ?m + rat_of_int ?r / rat_of_nat n" .
  have "rat_of_int ?r / rat_of_nat n \<le> (rat_of_nat n - 1) / rat_of_nat n"
    using r(2) n0 by (intro divide_right_mono) (simp_all add: of_int_le_iff [symmetric, where ?'a = rat] del: of_int_le_iff)
  also have "\<dots> = 1 - 1 / rat_of_nat n" using n0 by (simp add: field_simps)
  also have "\<dots> \<le> 1 - 1 / 256"
  proof -
    have "rat_of_nat n \<le> 256" using assms(2) by simp
    then have "1 / 256 \<le> 1 / rat_of_nat n" using n0 by (simp add: field_simps)
    then show ?thesis by simp
  qed
  finally have "rat_of_int ?r / rat_of_nat n \<le> 255 / 256" by simp
  moreover have "0 \<le> rat_of_int ?r / rat_of_nat n" using r(1) n0 by simp
  ultimately show ?thesis unfolding q by simp
qed

lemma rounded_words_small:
  assumes "float_rounding fl" and "n \<le> 208"
  shows "fl (rat_of_nat n / 4) = rat_of_nat n / 4"
proof -
  have e: "rat_of_nat n / 4 = rat_of_int (64 * int n) / 256" by simp
  have "0 \<le> 64 * int n" and "64 * int n \<le> 131072" using assms(2) by simp_all
  with assms(1) have "fl (rat_of_int (64 * int n) / 256) = rat_of_int (64 * int n) / 256"
    by (rule float_rounding_exact)
  then show ?thesis unfolding e .
qed

lemma rounded_words_large:
  assumes "float_rounding fl" and "209 \<le> n"
  shows "209 / 4 \<le> fl (rat_of_nat n / 4)"
proof -
  have "(209 :: rat) \<le> rat_of_nat n" using assms(2) by (metis of_nat_numeral of_nat_le_iff)
  then have "rat_of_int 13376 / 256 \<le> rat_of_nat n / 4" by simp
  with assms(1) have "fl (rat_of_int 13376 / 256) \<le> fl (rat_of_nat n / 4)"
    by (rule float_rounding_mono)
  moreover have "fl (rat_of_int 13376 / 256) = rat_of_int 13376 / 256"
    using assms(1) by (rule float_rounding_exact) simp_all
  ultimately show ?thesis by simp
qed

lemma rounded_rounds_small:
  assumes "float_rounding fl" and "0 < n" and "n \<le> 208"
  shows "py_int (fl (1 + fl (52 / fl (rat_of_nat n / 4)))) = 1 + 208 div int n"
proof -
  have q: "52 / (rat_of_nat n / 4) = 208 / rat_of_nat n" by simp
  have m0: "0 \<le> 208 div int n" using assms(2) by (simp add: pos_imp_zdiv_nonneg_iff)
  have "1 \<le> int n" using assms(2) by linarith
  then have "208 div int n \<le> 208 div 1" by (intro zdiv_mono2) simp_all
  then have m1: "208 div int n \<le> 208" by simp
  note w = quotient_window [OF assms(2,3)]
  have "py_int (fl (1 + fl (208 / rat_of_nat n))) = 1 + 208 div int n"
    using assms(1) m0 m1 w [THEN conjunct1] w [THEN conjunct2]
    by (rule rounded_sum_truncates)
  then show ?thesis
    unfolding rounded_words_small [OF assms(1,3)] q .
qed

lemma rounded_rounds_large:
  assumes "float_rounding fl" and "209 \<le> n"
  shows "py_int (fl (1 + fl (52 / fl (rat_of_nat n / 4)))) = 1 + 208 div int n"
proof -
  let ?w = "fl (rat_of_nat n / 4)"
  have w: "209 / 4 \<le> ?w" using assms by (rule rounded_words_large)
  then have w0: "0 < ?w" by linarith
  have "52 / ?w \<le> 52 / (209 / 4)" using w by (intro divide_left_mono) simp_all
  then have hi: "52 / ?w \<le> rat_of_int 0 + 255 / 256" by simp
  have lo: "rat_of_int 0 \<le> 52 / ?w" using w0 by simp
  have "(0 :: int) \<le> 0" and "(0 :: int) \<le> 208" by simp_all
  with assms(1) have "py_int (fl (1 + fl (52 / ?w))) = 1 + 0"
    using lo hi by (rule rounded_sum_truncates)
  moreover have "208 div int n = 0" using assms(2) by (simp add: div_pos_pos_trivial)
  ultimately show ?thesis by (simp only:)
qed

lemma lunii_tea_rounds_float_eq:
  assumes "float_rounding fl" and "buffer \<noteq> []"
  shows "lunii_tea_rounds_float fl buffer = lunii_tea_rounds buffer"
proof -
  let ?n = "length buffer"
  let ?w = "fl (rat_of_nat ?n / 4)"
  have n: "0 < ?n" using assms(2) by simp
  have w: "?w \<noteq> 0"
  proof (cases "?n \<le> 208")
    case True
    show ?thesis unfolding rounded_words_small [OF assms(1) True] using n by simp
  next
    case False
    then have "209 \<le> ?n" by simp
    with assms(1) have "209 / 4 \<le> ?w" by (rule rounded_words_large)
    then show ?thesis by linarith
  qed
  have r: "py_int (fl (1 + fl (52 / ?w))) = 1 + 208 div int ?n"
  proof (cases "?n \<le> 208")
    case True
    with assms(1) n show ?thesis by (rule rounded_rounds_small)
  next
    case False
    then have "209 \<le> ?n" by simp
    with assms(1) show ?thesis by (rule rounded_rounds_large)
  qed
  have "lunii_tea_rounds_float fl buffer = Inr (py_int (fl (1 + fl (52 / ?w))))"
    using w by (simp only: lunii_tea_rounds_float_def Let_def if_False)
  then show ?thesis
    unfolding r lunii_tea_rounds_208 [OF assms(2)] .
qed

lemma float_rounding_fixed_round: "float_rounding fixed_round"
proof -
  have mono: "fixed_round x \<le> fixed_round y" if "x \<le> y" for x y
  proof -
    have "\<lfloor>x * 1048576\<rfloor> \<le> \<lfloor>y * 1048576\<rfloor>" using that by (intro floor_mono) simp
    then show ?thesis unfolding fixed_round_def by (simp add: divide_right_mono)
  qed
  have exact: "fixed_round (rat_of_nat j / 256) = rat_of_nat j / 256" for j
  proof -
    have "rat_of_nat j / 256 * 1048576 = rat_of_int (4096 * int j)" by simp
    then have "\<lfloor>rat_of_nat j / 256 * 1048576\<rfloor> = 4096 * int j" by (simp only: floor_of_int)
    then show ?thesis unfolding fixed_round_def by simp
  qed
  show ?thesis unfolding float_rounding_def using mono exact by blast
qed

subsection \<open>Partial encryption\<close>

lemma encrypt_first_512_bytes_nonempty:
  assumes "data \<noteq> []"
  shows "encrypt_first_512_bytes data key =
           (case xxtea_encrypt (take 512 data) key
                   (nat (py_int (1 + 52 / (rat_of_nat (min 512 (length data)) / 4)))) of
              Inl e \<Rightarrow> Inl e
            | Inr encrypted \<Rightarrow> Inr (encrypted @ drop 512 data))"
proof -
  let ?n = "min 512 (length data)"
  have ne: "take ?n data \<noteq> []" using assms by (cases data) auto
  have t: "take ?n data = take 512 data" by (simp add: min_def)
  have d: "drop ?n data = drop 512 data" by (simp add: min_def)
  have l: "length (take ?n data) = ?n" by simp
  have r: "lunii_tea_rounds (take ?n data) = Inr (py_int (1 + 52 / (rat_of_nat ?n / 4)))"
    using lunii_tea_rounds_nonempty [OF ne] unfolding l .
  then have r': "lunii_tea_rounds (take 512 data) = Inr (py_int (1 + 52 / (rat_of_nat ?n / 4)))"
    unfolding t .
  have "encrypt_first_512_bytes data key =
          (case lunii_tea_rounds (take ?n data) of
             Inl e \<Rightarrow> Inl e
           | Inr rounds \<Rightarrow>
               (case xxtea_encrypt (take ?n data) key (nat rounds) of
                  Inl e \<Rightarrow> Inl e
                | Inr encrypted \<Rightarrow> Inr (encrypted @ drop ?n data)))"
    using assms by (simp add: encrypt_first_512_bytes_def Let_def)
  then show ?thesis unfolding t d r' by simp
qed

lemma encrypt_first_512_bytes_Inr:
  assumes "length key = 16" and "8 \<le> length data" and "min 512 (length data) mod 4 = 0"
  shows "\<exists>out. encrypt_first_512_bytes data key = Inr out"
proof -
  have ne: "data \<noteq> []" using assms(2) by auto
  have len: "length (take 512 data) = min 512 (length data)" by (simp add: min_def)
  have "8 \<le> length (take 512 data)" using assms(2) by simp
  moreover have "length (take 512 data) mod 4 = 0" using assms(3) unfolding len .
  ultimately show ?thesis
    unfolding encrypt_first_512_bytes_nonempty [OF ne]
    by (simp add: xxtea_encrypt_Inr [OF assms(1)])
qed

lemma encrypt_first_512_bytes_parts:
  assumes "B \<noteq> []" and "encrypt_first_512_bytes B key = Inr out"
  shows "\<exists>encrypted. length encrypted = min 512 (length B) \<and> out = encrypted @ drop 512 B"
proof -
  obtain encrypted r where
    enc: "xxtea_encrypt (take 512 B) key r = Inr encrypted" and
    out: "out = encrypted @ drop 512 B"
    using assms(2) unfolding encrypt_first_512_bytes_nonempty [OF assms(1)]
    by (auto split: sum.splits)
  have "length encrypted = length (take 512 B)" by (rule xxtea_encrypt_length [OF enc])
  then have "length encrypted = min 512 (length B)" by (simp add: min_def)
  with out show ?thesis by blast
qed

lemma encrypt_first_512_bytes_raises:
  assumes "B \<noteq> []"
      and "length key \<noteq> 16 \<or> length B < 8 \<or> min 512 (length B) mod 4 \<noteq> 0"
  shows "\<exists>msg. encrypt_first_512_bytes B key = Inl (ValueError msg)"
proof -
  have len: "length (take 512 B) = min 512 (length B)" by (simp add: min_def)
  have "length key \<noteq> 16 \<or> length (take 512 B) < 8 \<or> length (take 512 B) mod 4 \<noteq> 0"
    using assms(2) unfolding len by auto
  then show ?thesis
    unfolding encrypt_first_512_bytes_nonempty [OF assms(1)]
    by (auto simp: xxtea_encrypt_def)
qed

text \<open>
  Claim C2 as the specification states it, for every byte buffer, does not hold: the
  cipher refuses a buffer of fewer than 8 bytes, so the partial encryption raises on the
  4-byte buffer \<open>[1, 2, 3, 4]\<close> and returns no buffer of any length.
\<close>

theorem encrypt_first_512_bytes_length_counterexample:
  "encrypt_first_512_bytes [1, 2, 3, 4] lunii_generic_key
     = Inl (ValueError ''Data length must be a multiple of 4 bytes and must not be less than 8.'')
   \<and> \<not> (\<forall>B. \<exists>out. encrypt_first_512_bytes B lunii_generic_key = Inr out
                    \<and> length out = length B)"
proof -
  have run: "encrypt_first_512_bytes [1, 2, 3, 4] lunii_generic_key
     = Inl (ValueError ''Data length must be a multiple of 4 bytes and must not be less than 8.'')"
    by code_simp
  then have "\<not> (\<exists>out. encrypt_first_512_bytes [1, 2, 3, 4] lunii_generic_key = Inr out
                    \<and> length out = length [1, 2, 3, 4 :: byte])"
    by simp
  then have "\<not> (\<forall>B. \<exists>out. encrypt_first_512_bytes B lunii_generic_key = Inr out
                    \<and> length out = length B)"
    by blast
  with run show ?thesis by (rule conjI)
qed

text \<open>
  Claim C2, as amended: the partial encryption keeps the length whenever it returns. For
  every buffer \<open>B\<close> and key, a buffer that \<^verbatim>\<open>encrypt_first_512_bytes\<close> returns has exactly
  \<open>len(B)\<close> bytes. With a key of 16 bytes it does return one for the empty buffer and for
  every buffer of at least 8 bytes whose head \<open>B[:512]\<close> is a whole number of 32-bit words.
  For every other buffer (not empty, and shorter than 8 bytes or with a head that is no
  whole number of words, or with a key that has not 16 bytes) it raises \<^verbatim>\<open>ValueError\<close>.
\<close>

theorem encrypt_first_512_bytes_length:
  "(encrypt_first_512_bytes B key = Inr out \<longrightarrow> length out = length B)
   \<and> (B = [] \<or> (length key = 16 \<and> 8 \<le> length B \<and> min 512 (length B) mod 4 = 0) \<longrightarrow>
        (\<exists>out'. encrypt_first_512_bytes B key = Inr out' \<and> length out' = length B))
   \<and> (B \<noteq> [] \<and> (length key \<noteq> 16 \<or> length B < 8 \<or> min 512 (length B) mod 4 \<noteq> 0) \<longrightarrow>
        (\<exists>msg. encrypt_first_512_bytes B key = Inl (ValueError msg)))"
proof -
  have keeps: "length out' = length B" if "encrypt_first_512_bytes B key = Inr out'" for out'
  proof (cases "B = []")
    case True
    with that show ?thesis by (simp add: encrypt_first_512_bytes_def)
  next
    case False
    from encrypt_first_512_bytes_parts [OF False that] show ?thesis by auto
  qed
  have returns: "\<exists>out'. encrypt_first_512_bytes B key = Inr out'"
    if "B = [] \<or> (length key = 16 \<and> 8 \<le> length B \<and> min 512 (length B) mod 4 = 0)"
  proof (cases "B = []")
    case True
    then show ?thesis by (simp add: encrypt_first_512_bytes_def)
  next
    case False
    with that have "length key = 16" and "8 \<le> length B" and "min 512 (length B) mod 4 = 0"
      by simp_all
    then show ?thesis by (rule encrypt_first_512_bytes_Inr)
  qed
  show ?thesis
  proof (intro conjI impI)
    assume "encrypt_first_512_bytes B key = Inr out"
    then show "length out = length B" by (rule keeps)
  next
    assume "B = [] \<or> (length key = 16 \<and> 8 \<le> length B \<and> min 512 (length B) mod 4 = 0)"
    then obtain out' where r: "encrypt_first_512_bytes B key = Inr out'"
      using returns by auto
    from r keeps [OF r]
    show "\<exists>out'. encrypt_first_512_bytes B key = Inr out' \<and> length out' = length B"
      by (intro exI conjI)
  next
    assume a: "B \<noteq> [] \<and> (length key \<noteq> 16 \<or> length B < 8 \<or> min 512 (length B) mod 4 \<noteq> 0)"
    then have "B \<noteq> []"
      and "length key \<noteq> 16 \<or> length B < 8 \<or> min 512 (length B) mod 4 \<noteq> 0"
      by simp_all
    then show "\<exists>msg. encrypt_first_512_bytes B key = Inl (ValueError msg)"
      by (rule encrypt_first_512_bytes_raises)
  qed
qed

theorem encrypt_first_512_bytes_length_witness:
  "encrypt_first_512_bytes [1, 2, 3, 4, 5, 6, 7, 8, 9, 10, 11, 12] lunii_generic_key
     = Inr [225, 139, 41, 201, 240, 19, 10, 214, 75, 61, 107, 161]
   \<and> length [225, 139, 41, 201, 240, 19, 10, 214, 75, 61, 107, 161 :: byte]
     = length [1, 2, 3, 4, 5, 6, 7, 8, 9, 10, 11, 12 :: byte]
   \<and> (\<exists>out'. encrypt_first_512_bytes (replicate 600 65) lunii_generic_key = Inr out'
          \<and> length out' = 600)
   \<and> (\<exists>msg. encrypt_first_512_bytes [1, 2, 3, 4, 5, 6, 7] lunii_generic_key
          = Inl (ValueError msg))"
proof -
  have run: "encrypt_first_512_bytes [1, 2, 3, 4, 5, 6, 7, 8, 9, 10, 11, 12] lunii_generic_key
     = Inr [225, 139, 41, 201, 240, 19, 10, 214, 75, 61, 107, 161]"
    by code_simp
  have "length [225, 139, 41, 201, 240, 19, 10, 214, 75, 61, 107, 161 :: byte]
          = length [1, 2, 3, 4, 5, 6, 7, 8, 9, 10, 11, 12 :: byte]"
    using encrypt_first_512_bytes_length
            [of "[1, 2, 3, 4, 5, 6, 7, 8, 9, 10, 11, 12]" lunii_generic_key
                "[225, 139, 41, 201, 240, 19, 10, 214, 75, 61, 107, 161]"] run
    by blast
  moreover have "\<exists>out'. encrypt_first_512_bytes (replicate 600 65) lunii_generic_key = Inr out'
          \<and> length out' = 600"
    using encrypt_first_512_bytes_length [of "replicate 600 65" lunii_generic_key]
    by (simp add: length_lunii_generic_key)
  moreover have "\<exists>msg. encrypt_first_512_bytes [1, 2, 3, 4, 5, 6, 7] lunii_generic_key
          = Inl (ValueError msg)"
    using encrypt_first_512_bytes_length [of "[1, 2, 3, 4, 5, 6, 7]" lunii_generic_key]
    by simp
  ultimately show ?thesis using run by blast
qed

text \<open>
  Claim C3: the bytes after the encrypted header are untouched. For every buffer \<open>B\<close> of
  more than 512 bytes, the buffer that \<^verbatim>\<open>encrypt_first_512_bytes\<close> returns agrees with \<open>B\<close>
  at every offset from 512 on; and with a key of 16 bytes it does return one.
\<close>

theorem encrypt_first_512_bytes_tail:
  assumes "512 < length B"
  shows "(encrypt_first_512_bytes B key = Inr out \<longrightarrow>
            drop 512 out = drop 512 B \<and> (\<forall>i. 512 \<le> i \<and> i < length B \<longrightarrow> out ! i = B ! i))
         \<and> (length key = 16 \<longrightarrow> (\<exists>out'. encrypt_first_512_bytes B key = Inr out'))"
proof (intro conjI impI)
  assume ok: "encrypt_first_512_bytes B key = Inr out"
  have ne: "B \<noteq> []" using assms by auto
  from encrypt_first_512_bytes_parts [OF ne ok] assms obtain encrypted where
    len: "length encrypted = 512" and out: "out = encrypted @ drop 512 B"
    by auto
  show "drop 512 out = drop 512 B" using out len by simp
  show "\<forall>i. 512 \<le> i \<and> i < length B \<longrightarrow> out ! i = B ! i"
  proof (intro allI impI)
    fix i
    assume i: "512 \<le> i \<and> i < length B"
    have "out ! i = drop 512 B ! (i - 512)"
      using out len i by (simp add: nth_append)
    also have "\<dots> = B ! i" using i by simp
    finally show "out ! i = B ! i" .
  qed
next
  assume "length key = 16"
  moreover have "8 \<le> length B" and "min 512 (length B) mod 4 = 0" using assms by simp_all
  ultimately show "\<exists>out'. encrypt_first_512_bytes B key = Inr out'"
    by (rule encrypt_first_512_bytes_Inr)
qed

theorem encrypt_first_512_bytes_tail_witness:
  "512 < length (replicate 600 (65 :: byte))
   \<and> (\<exists>out. encrypt_first_512_bytes (replicate 600 65) lunii_generic_key = Inr out
          \<and> drop 512 out = replicate 88 65
          \<and> out ! 599 = 65)"
proof -
  have big: "512 < length (replicate 600 (65 :: byte))" by simp
  note tail = encrypt_first_512_bytes_tail [OF big, of lunii_generic_key]
  obtain out where run: "encrypt_first_512_bytes (replicate 600 65) lunii_generic_key = Inr out"
    using tail length_lunii_generic_key by blast
  from tail [of out] run have "drop 512 out = replicate 88 65" and "out ! 599 = 65"
    by simp_all
  with big run show ?thesis by blast
qed

text \<open>
  Claim C4: the round count. For a non-empty buffer whose length is a multiple of 4,
  \<^verbatim>\<open>lunii_tea_rounds\<close> is \<open>1 + 52 div (len div 4)\<close> in integer arithmetic, also when
  every intermediate result is rounded as floating point does; and
  \<^verbatim>\<open>encrypt_first_512_bytes\<close> calls the cipher on the head \<open>B[:512]\<close> with the round count
  of the head's length \<open>min 512 (len B)\<close>.
\<close>

theorem lunii_tea_rounds_formula:
  "(buffer \<noteq> [] \<and> length buffer mod 4 = 0 \<longrightarrow>
      lunii_tea_rounds buffer = Inr (1 + 52 div (int (length buffer) div 4))
      \<and> (\<forall>fl. float_rounding fl \<longrightarrow>
             lunii_tea_rounds_float fl buffer = Inr (1 + 52 div (int (length buffer) div 4))))
   \<and> (B \<noteq> [] \<and> min 512 (length B) mod 4 = 0 \<longrightarrow>
      lunii_tea_rounds (take (min 512 (length B)) B)
        = Inr (1 + 52 div (int (min 512 (length B)) div 4))
      \<and> encrypt_first_512_bytes B key =
          (case xxtea_encrypt (take 512 B) key
                  (nat (1 + 52 div (int (min 512 (length B)) div 4))) of
             Inl e \<Rightarrow> Inl e
           | Inr encrypted \<Rightarrow> Inr (encrypted @ drop 512 B)))"
proof (intro conjI impI allI)
  assume "buffer \<noteq> [] \<and> length buffer mod 4 = 0"
  then show "lunii_tea_rounds buffer = Inr (1 + 52 div (int (length buffer) div 4))"
    using lunii_tea_rounds_aligned [of buffer] by simp
next
  fix fl
  assume "buffer \<noteq> [] \<and> length buffer mod 4 = 0" and "float_rounding fl"
  then show "lunii_tea_rounds_float fl buffer = Inr (1 + 52 div (int (length buffer) div 4))"
    using lunii_tea_rounds_float_eq [of fl buffer] lunii_tea_rounds_aligned [of buffer]
    by simp
next
  assume a: "B \<noteq> [] \<and> min 512 (length B) mod 4 = 0"
  define n where "n = min 512 (length B)"
  have ne: "B \<noteq> []" and al: "n mod 4 = 0" using a by (simp_all add: n_def)
  have hne: "take n B \<noteq> []" using ne by (cases B) (auto simp: n_def)
  have len: "length (take n B) = n" by (simp add: n_def)
  have al': "length (take n B) mod 4 = 0" unfolding len by (rule al)
  have head: "lunii_tea_rounds (take n B) = Inr (1 + 52 div (int n div 4))"
    using lunii_tea_rounds_aligned [OF hne al'] unfolding len .
  have "lunii_tea_rounds (take n B) = Inr (py_int (1 + 52 / (rat_of_nat n / 4)))"
    using lunii_tea_rounds_nonempty [OF hne] unfolding len .
  with head have eq: "py_int (1 + 52 / (rat_of_nat n / 4)) = 1 + 52 div (int n div 4)"
    by (simp only: sum.inject)
  show "lunii_tea_rounds (take (min 512 (length B)) B)
          = Inr (1 + 52 div (int (min 512 (length B)) div 4))"
    using head unfolding n_def .
  show "encrypt_first_512_bytes B key =
          (case xxtea_encrypt (take 512 B) key
                  (nat (1 + 52 div (int (min 512 (length B)) div 4))) of
             Inl e \<Rightarrow> Inl e
           | Inr encrypted \<Rightarrow> Inr (encrypted @ drop 512 B))"
    using encrypt_first_512_bytes_nonempty [OF ne, of key] eq unfolding n_def
    by (simp only:)
qed

theorem lunii_tea_rounds_formula_witness:
  "lunii_tea_rounds [1, 2, 3, 4, 5, 6, 7, 8] = Inr 27
   \<and> lunii_tea_rounds_float fixed_round [1, 2, 3, 4, 5, 6, 7, 8] = Inr 27
   \<and> lunii_tea_rounds (replicate 512 65) = Inr 1
   \<and> encrypt_first_512_bytes (replicate 600 65) lunii_generic_key =
       (case xxtea_encrypt (replicate 512 65) lunii_generic_key 1 of
          Inl e \<Rightarrow> Inl e
        | Inr encrypted \<Rightarrow> Inr (encrypted @ replicate 88 65))"
proof -
  have d: "drop 512 (replicate 600 (65 :: byte)) = replicate 88 65"
    by simp
  show ?thesis
    using lunii_tea_rounds_formula
            [of "[1, 2, 3, 4, 5, 6, 7, 8]" "replicate 600 65" lunii_generic_key]
          float_rounding_fixed_round
    by (simp add: d cong: sum.case_cong)
qed

text \<open>
  Claim C6: a head that is not word-aligned is refused. For every non-empty buffer \<open>B\<close>
  for which \<open>min 512 (len B)\<close> is not a multiple of 4, \<^verbatim>\<open>encrypt_first_512_bytes\<close> raises a
  \<^verbatim>\<open>ValueError\<close> (from the cipher's check of its input) and returns no buffer.
\<close>

theorem encrypt_first_512_bytes_unaligned:
  assumes "B \<noteq> []" and "min 512 (length B) mod 4 \<noteq> 0"
  shows "\<exists>msg. encrypt_first_512_bytes B key = Inl (ValueError msg)"
proof -
  have "length (take 512 B) = min 512 (length B)" by (simp add: min_def)
  then have "length (take 512 B) mod 4 \<noteq> 0" using assms(2) by simp
  from xxtea_encrypt_unaligned [OF this] obtain msg where
    "xxtea_encrypt (take 512 B) key
       (nat (py_int (1 + 52 / (rat_of_nat (min 512 (length B)) / 4)))) = Inl (ValueError msg)"
    by blast
  then show ?thesis
    unfolding encrypt_first_512_bytes_nonempty [OF assms(1)] by simp
qed

theorem encrypt_first_512_bytes_unaligned_witness:
  "[1, 2, 3, 4, 5, 6, 7, 8, 9, 10, 11 :: byte] \<noteq> []
   \<and> min 512 (length [1, 2, 3, 4, 5, 6, 7, 8, 9, 10, 11 :: byte]) mod 4 \<noteq> 0
   \<and> (\<exists>msg. encrypt_first_512_bytes [1, 2, 3, 4, 5, 6, 7, 8, 9, 10, 11] lunii_generic_key
              = Inl (ValueError msg))"
  using encrypt_first_512_bytes_unaligned
          [of "[1, 2, 3, 4, 5, 6, 7, 8, 9, 10, 11]" lunii_generic_key]
  by simp

subsection \<open>Failures before the destination archive is opened\<close>

lemma zip_read_in_namelist:
  assumes "zip_read z name = Inr data"
  shows "name \<in> set (namelist z)"
proof -
  from assms have "map_of (rev z) name = Some data"
    by (simp add: zip_read_def split: option.splits)
  then have "(name, data) \<in> set (rev z)" by (rule map_of_SomeD)
  then show ?thesis by (auto simp: namelist_def intro: rev_image_eqI)
qed

lemma zip_read_of_namelist:
  assumes "name \<in> set (namelist z)"
  shows "\<exists>data. zip_read z name = Inr data"
proof -
  from assms have "name \<in> fst ` set (rev z)" by (simp add: namelist_def)
  then have "map_of (rev z) name \<noteq> None" by (simp add: map_of_eq_None_iff)
  then show ?thesis by (auto simp: zip_read_def)
qed

text \<open>
  Claim C8: an archive without \<^verbatim>\<open>uuid.bin\<close>. When the source archive exists and its entry
  list does not contain \<^verbatim>\<open>uuid.bin\<close>, the conversion raises one of the two \<^verbatim>\<open>ValueError\<close>s
  of its own checks (the missing identifier, or before that the file name without the
  \<^verbatim>\<open>.plain.pk\<close> suffix) and the destination archive is never opened.
\<close>

theorem missing_uuid_bin:
  assumes "fs input_path = Some zip_in" and "''uuid.bin'' \<notin> set (namelist zip_in)"
  shows "outcome (convert_plain_to_v2 fs input_path output_path)
           = Inl (ValueError (if endswith (path_name input_path) ''.plain.pk''
                              then ''No uuid.bin found in archive''
                              else ''Input file must be a .plain.pk file''))
         \<and> created (convert_plain_to_v2 fs input_path output_path) = None"
  using assms by (simp add: convert_plain_to_v2_def Let_def)

theorem missing_uuid_bin_witness:
  "outcome (convert_plain_to_v2
      (\<lambda>p. if p = \<lparr>anchor = ''/'', parts = [''tmp'', ''story.plain.pk'']\<rparr>
           then Some [(''ni'', [1, 2, 3]), (''li.plain'', [1, 2, 3, 4, 5, 6, 7, 8])] else None)
      \<lparr>anchor = ''/'', parts = [''tmp'', ''story.plain.pk'']\<rparr> None)
     = Inl (ValueError ''No uuid.bin found in archive'')
   \<and> created (convert_plain_to_v2
      (\<lambda>p. if p = \<lparr>anchor = ''/'', parts = [''tmp'', ''story.plain.pk'']\<rparr>
           then Some [(''ni'', [1, 2, 3]), (''li.plain'', [1, 2, 3, 4, 5, 6, 7, 8])] else None)
      \<lparr>anchor = ''/'', parts = [''tmp'', ''story.plain.pk'']\<rparr> None)
     = None"
  using missing_uuid_bin
    [of "\<lambda>p. if p = \<lparr>anchor = ''/'', parts = [''tmp'', ''story.plain.pk'']\<rparr>
              then Some [(''ni'', [1, 2, 3]), (''li.plain'', [1, 2, 3, 4, 5, 6, 7, 8])] else None"
        "\<lparr>anchor = ''/'', parts = [''tmp'', ''story.plain.pk'']\<rparr>"
        "[(''ni'', [1, 2, 3]), (''li.plain'', [1, 2, 3, 4, 5, 6, 7, 8])]" None]
  by (simp add: namelist_def path_name_def endswith_def)

text \<open>
  Claim C9: an identifier of the wrong size. When the \<^verbatim>\<open>uuid.bin\<close> entry that the
  conversion reads does not hold exactly 16 bytes, the conversion raises an error and the
  destination archive is never opened; for a source named \<^verbatim>\<open>*.plain.pk\<close> the error is
  the \<^verbatim>\<open>ValueError\<close> of \<^verbatim>\<open>UUID(bytes=...)\<close>, which is neither of the converter's own two.
\<close>

theorem uuid_bin_wrong_length:
  assumes "fs input_path = Some zip_in"
      and "zip_read zip_in ''uuid.bin'' = Inr uuid_bytes"
      and "length uuid_bytes \<noteq> 16"
  shows "(\<exists>e. outcome (convert_plain_to_v2 fs input_path output_path) = Inl e)
         \<and> created (convert_plain_to_v2 fs input_path output_path) = None
         \<and> (endswith (path_name input_path) ''.plain.pk'' \<longrightarrow>
              outcome (convert_plain_to_v2 fs input_path output_path)
                = Inl (ValueError ''bytes is not a 16-char string''))"
proof -
  have "''uuid.bin'' \<in> set (namelist zip_in)"
    using assms(2) by (rule zip_read_in_namelist)
  then show ?thesis
    using assms by (simp add: convert_plain_to_v2_def Let_def UUID_def)
qed

theorem uuid_bin_wrong_length_witness:
  "length [1, 2, 3 :: byte] \<noteq> 16
   \<and> outcome (convert_plain_to_v2
      (\<lambda>p. if p = \<lparr>anchor = ''/'', parts = [''tmp'', ''story.plain.pk'']\<rparr>
           then Some [(''uuid.bin'', [1, 2, 3]), (''ni'', [1, 2, 3])] else None)
      \<lparr>anchor = ''/'', parts = [''tmp'', ''story.plain.pk'']\<rparr> None)
     = Inl (ValueError ''bytes is not a 16-char string'')
   \<and> created (convert_plain_to_v2
      (\<lambda>p. if p = \<lparr>anchor = ''/'', parts = [''tmp'', ''story.plain.pk'']\<rparr>
           then Some [(''uuid.bin'', [1, 2, 3]), (''ni'', [1, 2, 3])] else None)
      \<lparr>anchor = ''/'', parts = [''tmp'', ''story.plain.pk'']\<rparr> None)
     = None"
  using uuid_bin_wrong_length
    [of "\<lambda>p. if p = \<lparr>anchor = ''/'', parts = [''tmp'', ''story.plain.pk'']\<rparr>
              then Some [(''uuid.bin'', [1, 2, 3]), (''ni'', [1, 2, 3])] else None"
        "\<lparr>anchor = ''/'', parts = [''tmp'', ''story.plain.pk'']\<rparr>"
        "[(''uuid.bin'', [1, 2, 3]), (''ni'', [1, 2, 3])]" "[1, 2, 3]" None]
  by (simp add: zip_read_def path_name_def endswith_def)

subsection \<open>The identifier in hexadecimal\<close>

lemma hex_of_int_small: "n < 16 \<Longrightarrow> hex_of_int n = [hex_digit n]"
  by (subst hex_of_int.simps) simp

lemma hex_of_int_large:
  "\<not> n < 16 \<Longrightarrow> hex_of_int n = hex_of_int (n div 16) @ [hex_digit (n mod 16)]"
  by (subst hex_of_int.simps) simp

lemma div16_less: "(n :: int) < 16 * c \<Longrightarrow> n div 16 < c"
  by simp


lemma length_hex_of_int:
  "0 \<le> n \<Longrightarrow> n < 16 ^ k \<Longrightarrow> 0 < k \<Longrightarrow> length (hex_of_int n) \<le> k"
proof (induction k arbitrary: n)
  case 0
  then show ?case by simp
next
  case (Suc k)
  show ?case
  proof (cases "n < 16")
    case True
    then show ?thesis by (simp add: hex_of_int_small)
  next
    case False
    have k: "0 < k"
    proof (rule ccontr)
      assume "\<not> 0 < k"
      then have "k = 0" by simp
      with Suc.prems(2) False show False by simp
    qed
    have "n < 16 * 16 ^ k" using Suc.prems(2) by simp
    then have "n div 16 < 16 ^ k" by (rule div16_less)
    moreover have "0 \<le> n div 16" using Suc.prems(1) by simp
    ultimately have "length (hex_of_int (n div 16)) \<le> k" using Suc.IH k by blast
    then show ?thesis unfolding hex_of_int_large [OF False] by simp
  qed
qed


lemma hex_padded_step:
  assumes "0 \<le> n" and "n < 16 ^ Suc k" and "0 < k"
  shows "hex_padded (Suc k) n = hex_padded k (n div 16) @ [hex_digit (n mod 16)]"
proof (cases "n < 16")
  case True
  then have d: "n div 16 = 0" and m: "n mod 16 = n" using assms(1) by simp_all
  have z: "hex_of_int 0 = [CHR ''0'']" by (simp add: hex_of_int_small hex_digit_def)
  have r: "replicate (k - 1) (CHR ''0'') @ [CHR ''0''] = replicate k (CHR ''0'')"
    using assms(3) by (cases k) (simp_all add: replicate_append_same)
  have "hex_padded (Suc k) n = replicate k (CHR ''0'') @ [hex_digit n]"
    by (simp add: hex_padded_def hex_of_int_small [OF True])
  moreover have "hex_padded k (n div 16) = replicate k (CHR ''0'')"
    unfolding d hex_padded_def z using r by simp
  ultimately show ?thesis unfolding m by simp
next
  case False
  have "n < 16 * 16 ^ k" using assms(2) by simp
  then have "n div 16 < 16 ^ k" by (rule div16_less)
  moreover have "0 \<le> n div 16" using assms(1) by simp
  ultimately have len: "length (hex_of_int (n div 16)) \<le> k"
    using length_hex_of_int assms(3) by blast
  have "hex_padded (Suc k) n =
          replicate (Suc k - Suc (length (hex_of_int (n div 16)))) (CHR ''0'')
            @ hex_of_int (n div 16) @ [hex_digit (n mod 16)]"
    unfolding hex_padded_def hex_of_int_large [OF False] by simp
  then show ?thesis unfolding hex_padded_def by simp
qed

lemma hex_padded_1: "0 \<le> n \<Longrightarrow> n < 16 \<Longrightarrow> hex_padded 1 n = [hex_digit n]"
  by (simp add: hex_padded_def hex_of_int_small)

lemma hex_padded_2:
  assumes "0 \<le> n" and "n < 256"
  shows "hex_padded 2 n = [hex_digit (n div 16), hex_digit (n mod 16)]"
proof -
  have "hex_padded (Suc 1) n = hex_padded 1 (n div 16) @ [hex_digit (n mod 16)]"
    using assms by (intro hex_padded_step) simp_all
  moreover have "hex_padded 1 (n div 16) = [hex_digit (n div 16)]"
    using assms by (intro hex_padded_1) simp_all
  ultimately show ?thesis by (simp add: numeral_2_eq_2)
qed


lemma int_from_bytes_snoc:
  "int_from_bytes (bs @ [b]) = int_from_bytes bs * 256 + uint b"
  by (simp add: int_from_bytes_def)

lemma uint_byte_bounds: "0 \<le> uint (b :: byte) \<and> uint b < 256"
  using uint_bounded [of b] by simp

lemma int_from_bytes_bounds:
  "0 \<le> int_from_bytes bs \<and> int_from_bytes bs < 256 ^ length bs"
proof (induction bs rule: rev_induct)
  case Nil
  show ?case by (simp add: int_from_bytes_def)
next
  case (snoc b bs)
  let ?x = "int_from_bytes bs"
  have b: "0 \<le> uint b" "uint b < 256" using uint_byte_bounds [of b] by simp_all
  have "?x + 1 \<le> 256 ^ length bs" using snoc.IH by simp
  then have "(?x + 1) * 256 \<le> 256 ^ length bs * 256" by (rule mult_right_mono) simp
  then have "?x * 256 + uint b < 256 ^ length bs * 256" using b by (simp add: algebra_simps)
  moreover have "0 \<le> ?x * 256 + uint b" using snoc.IH b by simp
  ultimately show ?case unfolding int_from_bytes_snoc by simp
qed

lemma char_of_upper_hex:
  "char_of (65 :: nat) = CHR ''A''" "char_of (66 :: nat) = CHR ''B''"
  "char_of (67 :: nat) = CHR ''C''" "char_of (68 :: nat) = CHR ''D''"
  "char_of (69 :: nat) = CHR ''E''" "char_of (70 :: nat) = CHR ''F''"
  by code_simp+

lemma upper_hex_digit:
  assumes "0 \<le> d" and "d < 16"
  shows "upper_char (hex_digit d) = ''0123456789ABCDEF'' ! nat d"
proof -
  from assms have "d = 0 \<or> d = 1 \<or> d = 2 \<or> d = 3 \<or> d = 4 \<or> d = 5 \<or> d = 6 \<or> d = 7
      \<or> d = 8 \<or> d = 9 \<or> d = 10 \<or> d = 11 \<or> d = 12 \<or> d = 13 \<or> d = 14 \<or> d = 15"
    by arith
  then show ?thesis
    unfolding hex_digit_def upper_char_def
    by (elim disjE) (simp_all add: Let_def char_of_upper_hex)
qed

lemma nibbles:
  fixes u x :: int
  assumes "0 \<le> u" and "u < 256"
  shows "0 \<le> u div 16" and "u div 16 < 16"
    and "(x * 256 + u) div 16 = x * 16 + u div 16"
    and "(x * 256 + u) mod 16 = u mod 16"
    and "(x * 16 + u div 16) div 16 = x"
    and "(x * 16 + u div 16) mod 16 = u div 16"
proof -
  show lo: "0 \<le> u div 16" and hi: "u div 16 < 16" using assms by simp_all
  have split: "x * 256 + u = (x * 16) * 16 + u" by simp
  show "(x * 256 + u) div 16 = x * 16 + u div 16"
    using split by (simp only: div_mult_self3)
  show "(x * 256 + u) mod 16 = u mod 16"
    using split by (simp only: mod_mult_self3)
  have "(u div 16) div 16 = 0" using lo hi by simp
  then show "(x * 16 + u div 16) div 16 = x" by (simp only: div_mult_self3)
  have "(u div 16) mod 16 = u div 16" using lo hi by simp
  then show "(x * 16 + u div 16) mod 16 = u div 16" by (simp only: mod_mult_self3)
qed

lemma str_upper_hex_padded_bytes:
  assumes "bs \<noteq> []"
  shows "str_upper (hex_padded (2 * length bs) (int_from_bytes bs)) = hex_upper_rendering bs"
  using assms
proof (induction bs rule: rev_induct)
  case Nil
  then show ?case by simp
next
  case (snoc b bs)
  let ?x = "int_from_bytes bs"
  let ?n = "?x * 256 + uint b"
  have b: "0 \<le> uint b" "uint b < 256" using uint_byte_bounds [of b] by simp_all
  note nb = nibbles [OF b]
  have m1: "uint b mod 16 < 16" and m0: "0 \<le> uint b mod 16" by simp_all
  have last2: "str_upper [hex_digit (uint b div 16), hex_digit (uint b mod 16)] = hex_upper_byte b"
    unfolding str_upper_def hex_upper_byte_def
    using upper_hex_digit [OF nb(1) nb(2)] upper_hex_digit [OF m0 m1]
    by (simp add: nat_div_distrib nat_mod_distrib)
  show ?case
  proof (cases "bs = []")
    case True
    then have "int_from_bytes (bs @ [b]) = uint b" by (simp add: int_from_bytes_def)
    moreover have "hex_padded 2 (uint b) = [hex_digit (uint b div 16), hex_digit (uint b mod 16)]"
      using b by (rule hex_padded_2)
    ultimately show ?thesis
      using True last2 by (simp add: hex_upper_rendering_def)
  next
    case False
    then have k: "0 < 2 * length bs" by simp
    have n0: "0 \<le> ?n" and n1: "?n < 256 ^ length (bs @ [b])"
      using int_from_bytes_bounds [of "bs @ [b]"] unfolding int_from_bytes_snoc by simp_all
    have p: "(256 :: int) ^ length bs = 16 ^ (2 * length bs)"
      by (simp add: power_mult)
    have n_lt: "?n < 16 ^ Suc (Suc (2 * length bs))" using n1 p by simp
    have dv0: "0 \<le> ?n div 16" using n0 by simp
    have dv_lt: "?n div 16 < 16 ^ Suc (2 * length bs)"
    proof -
      have "?n < 16 * 16 ^ Suc (2 * length bs)" using n_lt by simp
      then show ?thesis by (rule div16_less)
    qed
    have s1: "hex_padded (Suc (Suc (2 * length bs))) ?n
                = hex_padded (Suc (2 * length bs)) (?n div 16) @ [hex_digit (?n mod 16)]"
      using n0 n_lt by (rule hex_padded_step) simp
    have s2: "hex_padded (Suc (2 * length bs)) (?n div 16)
                = hex_padded (2 * length bs) ((?n div 16) div 16) @ [hex_digit ((?n div 16) mod 16)]"
      using dv0 dv_lt k by (rule hex_padded_step)
    have dd: "(?n div 16) div 16 = ?x" unfolding nb(3) by (rule nb(5))
    have dm: "(?n div 16) mod 16 = uint b div 16" unfolding nb(3) by (rule nb(6))
    have md: "?n mod 16 = uint b mod 16" by (rule nb(4))
    have "hex_padded (Suc (Suc (2 * length bs))) ?n
            = hex_padded (Suc (2 * length bs)) (?n div 16) @ [hex_digit (?n mod 16)]"
      by (rule s1)
    also have "\<dots> = (hex_padded (2 * length bs) ((?n div 16) div 16)
                       @ [hex_digit ((?n div 16) mod 16)]) @ [hex_digit (?n mod 16)]"
      by (simp only: s2)
    also have "\<dots> = (hex_padded (2 * length bs) ?x
                       @ [hex_digit (uint b div 16)]) @ [hex_digit (uint b mod 16)]"
      by (simp only: dd dm md)
    finally have "hex_padded (2 * length (bs @ [b])) (int_from_bytes (bs @ [b]))
            = hex_padded (2 * length bs) ?x @ [hex_digit (uint b div 16), hex_digit (uint b mod 16)]"
      unfolding int_from_bytes_snoc by simp
    then show ?thesis
      using snoc.IH [OF False] last2
      by (simp add: str_upper_def hex_upper_rendering_def)
  qed
qed

lemma uuid_hex_upper:
  assumes "length bs = 16"
  shows "str_upper (uuid_hex_of (int_from_bytes bs)) = hex_upper_rendering bs"
proof -
  have ne: "bs \<noteq> []" using assms by auto
  have "0 \<le> int_from_bytes bs" using int_from_bytes_bounds [of bs] by simp
  then have "uuid_hex_of (int_from_bytes bs) = hex_padded 32 (int_from_bytes bs)"
    by (simp add: uuid_hex_of_def format_032x_def hex_padded_def Let_def)
  then show ?thesis using str_upper_hex_padded_bytes [OF ne] assms by simp
qed

lemma length_hex_upper_rendering: "length (hex_upper_rendering bs) = 2 * length bs"
  by (induction bs) (simp_all add: hex_upper_rendering_def hex_upper_byte_def)

subsection \<open>The loop of the conversion\<close>

lemma zip_read_file_intact [simp]: "zip_read_file False z name = zip_read z name"
  by (simp add: zip_read_file_def split: sum.splits)

lemma zip_read_file_truncated:
  "zip_read_file True z name = Inl e \<longleftrightarrow>
     (zip_read z name = Inl e
      \<or> (\<exists>data. zip_read z name = Inr data) \<and> e = BadZipFile ''Truncated file header'')"
  by (auto simp: zip_read_file_def split: sum.splits)

lemma convert_entry_prefix:
  assumes "convert_entry uuid_hex file_name data = Inr (Some (new_name, output_data))"
  shows "take (Suc (length uuid_hex)) new_name = uuid_hex @ ''/''"
  using assms
  by (auto simp: convert_entry_def Let_def split: if_splits sum.splits)

lemma process_files_prefix:
  assumes "process_files uuid_hex truncated zip_in names st = (raised, st')"
      and "\<forall>(name, data) \<in> set (zip_out st). take (Suc (length uuid_hex)) name = uuid_hex @ ''/''"
  shows "\<forall>(name, data) \<in> set (zip_out st'). take (Suc (length uuid_hex)) name = uuid_hex @ ''/''"
  using assms
proof (induction names arbitrary: st)
  case Nil
  then show ?case by simp
next
  case (Cons file_name rest)
  show ?case
  proof (cases "file_name \<in> set [''uuid.bin'', ''_metadata.json'', ''_thumbnail.png'']")
    case True
    then have "process_files uuid_hex truncated zip_in rest st = (raised, st')"
      using Cons.prems(1) by simp
    then show ?thesis using Cons.IH Cons.prems(2) by blast
  next
    case False
    show ?thesis
    proof (cases "zip_read_file truncated zip_in file_name")
      case (Inl e)
      then have "st' = st" using Cons.prems(1) False by simp
      then show ?thesis using Cons.prems(2) by simp
    next
      case (Inr data)
      show ?thesis
      proof (cases "convert_entry uuid_hex file_name data")
        case (Inl e)
        then have "st' = st" using Cons.prems(1) False Inr by simp
        then show ?thesis using Cons.prems(2) by simp
      next
        case w: (Inr w)
        show ?thesis
        proof (cases w)
          case None
          then have "process_files uuid_hex truncated zip_in rest st = (raised, st')"
            using Cons.prems(1) False Inr w by simp
          then show ?thesis using Cons.IH Cons.prems(2) by blast
        next
          case (Some entry)
          obtain new_name output_data where entry: "entry = (new_name, output_data)"
            by (cases entry)
          let ?st = "\<lparr>zip_out = writestr (zip_out st) new_name output_data,
                       files_processed = files_processed st + 1\<rparr>"
          have run: "process_files uuid_hex truncated zip_in rest ?st = (raised, st')"
            using Cons.prems(1) False Inr w Some entry by simp
          have "take (Suc (length uuid_hex)) new_name = uuid_hex @ ''/''"
            using w Some entry by (intro convert_entry_prefix) simp
          then have "\<forall>(name, data) \<in> set (zip_out ?st).
                       take (Suc (length uuid_hex)) name = uuid_hex @ ''/''"
            using Cons.prems(2) by (simp add: writestr_def)
          with run show ?thesis using Cons.IH by blast
        qed
      qed
    qed
  qed
qed



lemma convert_plain_to_v2_created:
  assumes "fs input_path = Some zip_in"
      and "created (convert_plain_to_v2 fs input_path output_path) = Some (dest, entries)"
  shows "\<exists>uuid_bytes raised st.
           zip_read zip_in ''uuid.bin'' = Inr uuid_bytes \<and> length uuid_bytes = 16
           \<and> process_files (str_upper (uuid_hex_of (int_from_bytes uuid_bytes)))
                (dest = input_path) zip_in
                (namelist zip_in) \<lparr>zip_out = [], files_processed = 0\<rparr> = (raised, st)
           \<and> entries = zip_out st
           \<and> outcome (convert_plain_to_v2 fs input_path output_path)
               = (case raised of None \<Rightarrow> Inr dest | Some e \<Rightarrow> Inl e)"
proof -
  let ?r = "convert_plain_to_v2 fs input_path output_path"
  have suffix: "endswith (path_name input_path) ''.plain.pk''"
    using assms by (auto simp: convert_plain_to_v2_def split: if_splits)
  have listed: "''uuid.bin'' \<in> set (namelist zip_in)"
    using assms suffix by (auto simp: convert_plain_to_v2_def Let_def split: if_splits)
  then obtain uuid_bytes where rd: "zip_read zip_in ''uuid.bin'' = Inr uuid_bytes"
    using zip_read_of_namelist by blast
  have len: "length uuid_bytes = 16"
    using assms suffix listed rd
    by (auto simp: convert_plain_to_v2_def Let_def UUID_def split: if_splits)
  let ?h = "str_upper (uuid_hex_of (int_from_bytes uuid_bytes))"
  define d where "d = (case output_path of
                         None \<Rightarrow> path_join (path_parent input_path) (?h @ ''.v2.pk'')
                       | Some p \<Rightarrow> p)"
  obtain raised st where run:
    "process_files ?h (d = input_path) zip_in (namelist zip_in)
       \<lparr>zip_out = [], files_processed = 0\<rparr> = (raised, st)"
    by (cases "process_files ?h (d = input_path) zip_in (namelist zip_in)
                 \<lparr>zip_out = [], files_processed = 0\<rparr>")
  have r: "?r = \<lparr>outcome = (case raised of None \<Rightarrow> Inr d | Some e \<Rightarrow> Inl e),
                  created = Some (d, zip_out st)\<rparr>"
    using assms(1) suffix listed rd len run [unfolded d_def]
    by (cases raised) (simp_all add: convert_plain_to_v2_def Let_def UUID_def d_def)
  have "entries = zip_out st" and "dest = d"
    using assms(2) unfolding r by simp_all
  then show ?thesis using rd len run r by auto
qed

text \<open>
  Claim C1: the identifier is the root of every destination path. When the \<^verbatim>\<open>uuid.bin\<close>
  entry read by the conversion holds 16 bytes, every entry written to the destination
  archive has a path that starts with the 32 uppercase hexadecimal digits of these bytes
  (two per byte, in order) followed by \<^verbatim>\<open>/\<close>. This also holds for the entries written
  before a later entry made the conversion fail.
\<close>

theorem destination_paths_prefixed:
  assumes "fs input_path = Some zip_in"
      and "zip_read zip_in ''uuid.bin'' = Inr uuid_bytes"
      and "length uuid_bytes = 16"
      and "created (convert_plain_to_v2 fs input_path output_path) = Some (dest, entries)"
  shows "length (hex_upper_rendering uuid_bytes) = 32
         \<and> (\<forall>(name, data) \<in> set entries. take 33 name = hex_upper_rendering uuid_bytes @ ''/'')"
proof -
  let ?h = "hex_upper_rendering uuid_bytes"
  have h32: "length ?h = 32"
    using assms(3) by (simp add: length_hex_upper_rendering)
  obtain raised st where
    run: "process_files ?h (dest = input_path) zip_in (namelist zip_in)
            \<lparr>zip_out = [], files_processed = 0\<rparr> = (raised, st)" and
    entries: "entries = zip_out st"
    using convert_plain_to_v2_created [OF assms(1) assms(4)] assms(2)
    by (auto simp: uuid_hex_upper)
  have "\<forall>(name, data) \<in> set (zip_out st). take (Suc (length ?h)) name = ?h @ ''/''"
    using run by (rule process_files_prefix) simp
  then show ?thesis using h32 entries by simp
qed
lemma example_run:
  "convert_plain_to_v2 example_fs example_path None =
     \<lparr>outcome = Inr \<lparr>anchor = ''/'',
                      parts = [''tmp'', ''000102030405060708090A0B0C0D0E0F.v2.pk'']\<rparr>,
      created = Some (\<lparr>anchor = ''/'',
                        parts = [''tmp'', ''000102030405060708090A0B0C0D0E0F.v2.pk'']\<rparr>,
        [(''000102030405060708090A0B0C0D0E0F/ni'', [1, 2, 3]),
         (''000102030405060708090A0B0C0D0E0F/li'',
          [158, 11, 37, 231, 221, 126, 134, 97, 222, 78, 251, 16]),
         (''000102030405060708090A0B0C0D0E0F/rf/000/A'',
          [237, 205, 242, 110, 35, 246, 21, 123]),
         (''000102030405060708090A0B0C0D0E0F/rf/000/A'',
          [47, 3, 61, 30, 59, 174, 61, 241])])\<rparr>"
  by code_simp

text \<open>
  With the source path given as the destination, opening the destination truncates the
  source: the first entry that the loop reads raises \<^verbatim>\<open>BadZipFile\<close>, nothing is written, and
  the file is left as an empty archive. The loop ends normally only when it reads no
  entry at all.
\<close>

lemma process_files_truncated:
  assumes "set names \<subseteq> set (namelist zip_in)"
  shows "process_files uuid_hex True zip_in names st =
           (if set names \<subseteq> set [''uuid.bin'', ''_metadata.json'', ''_thumbnail.png''] then None
            else Some (BadZipFile ''Truncated file header''), st)"
  using assms
proof (induction names)
  case Nil
  then show ?case by simp
next
  case (Cons file_name rest)
  show ?case
  proof (cases "file_name \<in> set [''uuid.bin'', ''_metadata.json'', ''_thumbnail.png'']")
    case True
    then show ?thesis using Cons by simp
  next
    case False
    have "file_name \<in> set (namelist zip_in)" using Cons.prems by simp
    then obtain data where "zip_read zip_in file_name = Inr data"
      using zip_read_of_namelist by blast
    then have "zip_read_file True zip_in file_name = Inl (BadZipFile ''Truncated file header'')"
      by (simp add: zip_read_file_def)
    then show ?thesis using False by simp
  qed
qed

lemma example_run_onto_source:
  "convert_plain_to_v2 example_fs example_path (Some example_path) =
     \<lparr>outcome = Inl (BadZipFile ''Truncated file header''),
      created = Some (example_path, [])\<rparr>"
  by code_simp

theorem destination_paths_prefixed_witness:
  "zip_read example_archive ''uuid.bin'' = Inr example_uuid
   \<and> length example_uuid = 16
   \<and> hex_upper_rendering example_uuid = ''000102030405060708090A0B0C0D0E0F''
   \<and> list_all (\<lambda>(name, data). take 33 name = ''000102030405060708090A0B0C0D0E0F/'')
        (snd (the (created (convert_plain_to_v2 example_fs example_path None))))"
proof -
  have fs: "example_fs example_path = Some example_archive" by (simp add: example_fs_def)
  have rd: "zip_read example_archive ''uuid.bin'' = Inr example_uuid" by code_simp
  have len: "length example_uuid = 16" by (simp add: example_uuid_def)
  have hex: "hex_upper_rendering example_uuid = ''000102030405060708090A0B0C0D0E0F''"
    by code_simp
  obtain dest entries where
    cr: "created (convert_plain_to_v2 example_fs example_path None) = Some (dest, entries)"
    unfolding example_run by simp
  from destination_paths_prefixed [OF fs rd len cr]
  have "list_all (\<lambda>(name, data). take 33 name = ''000102030405060708090A0B0C0D0E0F/'') entries"
    unfolding hex by (simp add: list_all_iff)
  then show ?thesis using rd len hex cr by simp
qed

subsection \<open>Collisions of destination paths\<close>




text \<open>
  The only exception that the pass for a listed name can raise, while the source file is
  intact, is the one of the cipher on the data of that entry.
\<close>

lemma entry_error_cipher:
  assumes "entry_error uuid_hex zip_in n = Some e" and "n \<in> set (namelist zip_in)"
  shows "\<exists>data. zip_read zip_in n = Inr data
                \<and> encrypt_first_512_bytes data lunii_generic_key = Inl e"
proof -
  obtain data where rd: "zip_read zip_in n = Inr data"
    using zip_read_of_namelist [OF assms(2)] by blast
  have "encrypt_first_512_bytes data lunii_generic_key = Inl e"
    using assms(1) rd
    by (auto simp: entry_error_def convert_entry_def Let_def split: if_splits sum.splits)
  with rd show ?thesis by blast
qed




subsection \<open>The plain index files\<close>

text \<open>
  Claim C5 does not hold of the code for a name that contains \<^verbatim>\<open>.plain\<close> before its
  suffix: \<^verbatim>\<open>file_name.replace('.plain', '')\<close> removes every occurrence, so the entry
  \<^verbatim>\<open>a.plain.plain\<close> is written as \<^verbatim>\<open>a\<close> and not as \<^verbatim>\<open>a.plain\<close>. The bytes are those of
  the partial encryption, as the claim says.
\<close>

theorem plain_suffix_every_occurrence_removed:
  "endswith ''a.plain.plain'' ''.plain''
   \<and> convert_entry uuid_hex ''a.plain.plain'' data
       = (case encrypt_first_512_bytes data lunii_generic_key of
            Inl e \<Rightarrow> Inl e
          | Inr output_data \<Rightarrow> Inr (Some (uuid_hex @ ''/a'', output_data)))
   \<and> uuid_hex @ ''/a'' \<noteq> uuid_hex @ ''/a.plain''"
  by (simp add: convert_entry_def endswith_def startswith_def Let_def)

end
